theory Spec2Isabelle
  imports Main "HOL-Library.Sublist"
begin

section \<open>Text and character classes\<close>

text \<open>
  File contents are Python \<open>str\<close> values. They are modelled as \<^typ>\<open>string\<close>, one
  \<^typ>\<open>char\<close> per code point below 256; the classes \<open>\s\<close> and \<open>\w\<close> are the ones
  Python's \<open>re\<close> module uses for \<open>str\<close> patterns on that range.
\<close>

definition is_space :: "char \<Rightarrow> bool" where
  "is_space c =
     (let n = (of_char c :: nat)
      in (9 \<le> n \<and> n \<le> 13) \<or> (28 \<le> n \<and> n \<le> 32) \<or> n = 133 \<or> n = 160)"

definition is_word :: "char \<Rightarrow> bool" where
  "is_word c =
     (let n = (of_char c :: nat)
      in (48 \<le> n \<and> n \<le> 57) \<or> (65 \<le> n \<and> n \<le> 90) \<or> n = 95 \<or> (97 \<le> n \<and> n \<le> 122)
         \<or> n = 170 \<or> n = 178 \<or> n = 179 \<or> n = 181 \<or> n = 185 \<or> n = 186
         \<or> (188 \<le> n \<and> n \<le> 190) \<or> (192 \<le> n \<and> n \<le> 214)
         \<or> (216 \<le> n \<and> n \<le> 246) \<or> (248 \<le> n \<and> n \<le> 255))"

text \<open>The class \<open>[\w.]\<close> of the import pattern.\<close>

definition is_word_or_dot :: "char \<Rightarrow> bool" where
  "is_word_or_dot c = (is_word c \<or> c = CHR ''.'')"

text \<open>The negated classes \<open>[^"]\<close> and \<open>[^)]\<close> of the rewrite patterns.\<close>

definition not_quote :: "char \<Rightarrow> bool" where
  "not_quote c = (c \<noteq> CHR 0x22)"

definition not_rparen :: "char \<Rightarrow> bool" where
  "not_rparen c = (c \<noteq> CHR '')'')"

text \<open>Python's \<open>sub in content\<close> on strings.\<close>

fun contains :: "string \<Rightarrow> string \<Rightarrow> bool" where
  "contains s [] = (s = [])"
| "contains s (x # xs) = (prefix s (x # xs) \<or> contains s xs)"

section \<open>Regular expressions with Python's backtracking order\<close>

text \<open>
  The constructs the script's patterns use: a literal, a greedy \<open>+\<close> or \<open>*\<close> over a
  character class, sequencing, a greedy optional part and a numbered capture group.
\<close>

datatype re =
    Lit string
  | Plus "char \<Rightarrow> bool"
  | Star "char \<Rightarrow> bool"
  | Seq re re
  | Opt re
  | Group nat re

type_synonym caps = "(nat \<times> string) list"

text \<open>
  \<open>rmatch r xs\<close> lists every way \<open>r\<close> matches a prefix of \<open>xs\<close>, as the number of
  characters consumed and the groups captured, in the order the backtracking matcher tries
  them: a greedy repetition offers its longest run first, an optional part is tried before
  it is left out. The head of the list is the match Python reports.
\<close>

fun rmatch :: "re \<Rightarrow> string \<Rightarrow> (nat \<times> caps) list" where
  "rmatch (Lit s) xs = (if prefix s xs then [(length s, [])] else [])"
| "rmatch (Plus p) xs = map (\<lambda>k. (k, [])) (rev [1 ..< Suc (length (takeWhile p xs))])"
| "rmatch (Star p) xs = map (\<lambda>k. (k, [])) (rev [0 ..< Suc (length (takeWhile p xs))])"
| "rmatch (Seq a b) xs =
     concat (map (\<lambda>(n, g). map (\<lambda>(m, h). (n + m, g @ h)) (rmatch b (drop n xs))) (rmatch a xs))"
| "rmatch (Opt a) xs = rmatch a xs @ [(0, [])]"
| "rmatch (Group i a) xs = map (\<lambda>(n, g). (n, g @ [(i, take n xs)])) (rmatch a xs)"

text \<open>\<open>m.group(i)\<close>: the text the group captured last.\<close>

definition match_group :: "caps \<Rightarrow> nat \<Rightarrow> string" where
  "match_group g i = (case map_of (rev g) i of None \<Rightarrow> [] | Some s \<Rightarrow> s)"

text \<open>A pattern written as a sequence of parts.\<close>

fun seqs :: "re list \<Rightarrow> re" where
  "seqs [] = Lit []"
| "seqs [r] = r"
| "seqs (r # rs) = Seq r (seqs rs)"

text \<open>
  \<open>re.search\<close>: the first start offset with a match; the result is the start offset, the
  end offset and the groups. The offset \<open>k\<close> counts the characters already passed.
\<close>

fun search_at :: "re \<Rightarrow> nat \<Rightarrow> string \<Rightarrow> (nat \<times> nat \<times> caps) option" where
  "search_at r k [] = (case rmatch r [] of [] \<Rightarrow> None | (n, g) # _ \<Rightarrow> Some (k, k + n, g))"
| "search_at r k (x # xs) =
     (case rmatch r (x # xs) of
        [] \<Rightarrow> search_at r (Suc k) xs
      | (n, g) # _ \<Rightarrow> Some (k, k + n, g))"

definition re_search :: "re \<Rightarrow> string \<Rightarrow> (nat \<times> nat \<times> caps) option" where
  "re_search r xs = search_at r 0 xs"

text \<open>
  \<open>re.finditer\<close>: the non-overlapping matches from left to right. After an empty match
  the scan moves on by one character.
\<close>

function finditer_at :: "re \<Rightarrow> nat \<Rightarrow> string \<Rightarrow> (nat \<times> nat \<times> caps) list" where
  "finditer_at r k [] = (case rmatch r [] of [] \<Rightarrow> [] | (n, g) # _ \<Rightarrow> [(k, k + n, g)])"
| "finditer_at r k (x # xs) =
     (case rmatch r (x # xs) of
        [] \<Rightarrow> finditer_at r (Suc k) xs
      | (n, g) # _ \<Rightarrow>
          (k, k + n, g) #
            (if n = 0 then finditer_at r (Suc k) xs
             else finditer_at r (k + n) (drop n (x # xs))))"
  by pat_completeness auto
termination
  by (relation "measure (\<lambda>(r, k, xs). length xs)") auto

definition re_finditer :: "re \<Rightarrow> string \<Rightarrow> (nat \<times> nat \<times> caps) list" where
  "re_finditer r xs = finditer_at r 0 xs"

text \<open>
  \<open>re.sub\<close> with a template: every non-overlapping match, from left to right, is replaced
  by the template filled with its groups; the text between matches is copied.
\<close>

function re_sub :: "re \<Rightarrow> (caps \<Rightarrow> string) \<Rightarrow> string \<Rightarrow> string" where
  "re_sub r t [] = (case rmatch r [] of [] \<Rightarrow> [] | (n, g) # _ \<Rightarrow> t g)"
| "re_sub r t (x # xs) =
     (case rmatch r (x # xs) of
        [] \<Rightarrow> x # re_sub r t xs
      | (n, g) # _ \<Rightarrow>
          (if n = 0 then t g @ x # re_sub r t xs
           else t g @ re_sub r t (drop n (x # xs))))"
  by pat_completeness auto
termination
  by (relation "measure (\<lambda>(r, t, xs). length xs)") auto

section \<open>The checks and the two insertion steps\<close>

definition has_slf4j_import :: "string \<Rightarrow> bool" where
  "has_slf4j_import content = contains ''import org.slf4j.Logger'' content"

text \<open>\<open>private\s+static\s+final\s+Logger\s+log\s*=\<close>\<close>

definition logger_declaration_pattern :: re where
  "logger_declaration_pattern =
     seqs [Lit ''private'', Plus is_space, Lit ''static'', Plus is_space, Lit ''final'',
           Plus is_space, Lit ''Logger'', Plus is_space, Lit ''log'', Star is_space, Lit ''='']"

definition has_logger_declaration :: "string \<Rightarrow> bool" where
  "has_logger_declaration content = (re_search logger_declaration_pattern content \<noteq> None)"

text \<open>\<open>public\s+class\s+(\w+)\<close>\<close>

definition class_name_pattern :: re where
  "class_name_pattern =
     seqs [Lit ''public'', Plus is_space, Lit ''class'', Plus is_space, Group 1 (Plus is_word)]"

definition get_class_name :: "string \<Rightarrow> string option" where
  "get_class_name content =
     (case re_search class_name_pattern content of
        Some (s, e, g) \<Rightarrow> Some (match_group g 1)
      | None \<Rightarrow> None)"

text \<open>\<open>(import\s+[\w.]+;)\<close>\<close>

definition import_pattern :: re where
  "import_pattern =
     Group 1 (seqs [Lit ''import'', Plus is_space, Plus is_word_or_dot, Lit '';''])"

definition slf4j_imports :: string where
  "slf4j_imports = ''\<newline>import org.slf4j.Logger;\<newline>import org.slf4j.LoggerFactory;''"

definition add_slf4j_import :: "string \<Rightarrow> string" where
  "add_slf4j_import content =
     (let imports = re_finditer import_pattern content
      in if imports \<noteq> [] then
           (let insert_pos = fst (snd (last imports))
            in take insert_pos content @ slf4j_imports @ drop insert_pos content)
         else content)"

text \<open>
  \<open>(@Configuration\s+)?public\s+class\s+{class_name}\s*{\<close>, the class name spliced into
  the pattern. A name found by \<open>get_class_name\<close> consists of \<open>\w\<close> characters, which stand
  for themselves in a pattern.
\<close>

definition class_pattern :: "string \<Rightarrow> re" where
  "class_pattern class_name =
     seqs [Opt (Group 1 (seqs [Lit ''@Configuration'', Plus is_space])),
           Lit ''public'', Plus is_space, Lit ''class'', Plus is_space, Lit class_name,
           Star is_space, Lit ''{'']"

definition logger_declaration :: "string \<Rightarrow> string" where
  "logger_declaration class_name =
     ''\<newline>\<newline>    private static final Logger log = LoggerFactory.getLogger(''
       @ class_name @ ''.class);''"

definition add_logger_declaration :: "string \<Rightarrow> string \<Rightarrow> string" where
  "add_logger_declaration content class_name =
     (case re_search (class_pattern class_name) content of
        Some (s, insert_pos, g) \<Rightarrow>
          take insert_pos content @ logger_declaration class_name @ drop insert_pos content
      | None \<Rightarrow> content)"

section \<open>The call rewriter\<close>

definition out_literal :: re where
  \<open>out_literal =
     seqs [Lit ''System.out.println("'', Group 1 (Plus not_quote), Lit ''");'']\<close>

definition out_concat :: re where
  \<open>out_concat =
     seqs [Lit ''System.out.println("'', Group 1 (Plus not_quote), Lit '':'', Star is_space,
           Lit ''"'', Star is_space, Lit ''+'', Star is_space, Group 2 (Plus not_rparen),
           Lit '');'']\<close>

definition out_variable :: re where
  \<open>out_variable =
     seqs [Lit ''System.out.println('', Group 1 (Plus not_quote), Lit '');'']\<close>

definition info_literal :: "caps \<Rightarrow> string" where
  \<open>info_literal g = ''log.info("'' @ match_group g 1 @ ''");''\<close>

definition info_concat :: "caps \<Rightarrow> string" where
  \<open>info_concat g = ''log.info("'' @ match_group g 1 @ '': {}", '' @ match_group g 2 @ '');''\<close>

definition info_variable :: "caps \<Rightarrow> string" where
  \<open>info_variable g = ''log.info("{}",'' @ match_group g 1 @ '');''\<close>

definition out_patterns :: "(re \<times> (caps \<Rightarrow> string)) list" where
  "out_patterns =
     [(out_literal, info_literal), (out_concat, info_concat), (out_variable, info_variable)]"

definition replace_system_out :: "string \<Rightarrow> string" where
  "replace_system_out content =
     foldl (\<lambda>content (pattern, replacement). re_sub pattern replacement content)
       content out_patterns"

definition err_literal :: re where
  \<open>err_literal =
     seqs [Lit ''System.err.println("'', Group 1 (Plus not_quote), Lit ''");'']\<close>

definition err_concat :: re where
  \<open>err_concat =
     seqs [Lit ''System.err.println("'', Group 1 (Plus not_quote), Lit '':'', Star is_space,
           Lit ''"'', Star is_space, Lit ''+'', Star is_space, Group 2 (Plus not_rparen),
           Lit '');'']\<close>

definition err_variable :: re where
  \<open>err_variable =
     seqs [Lit ''System.err.println('', Group 1 (Plus not_quote), Lit '');'']\<close>

definition error_literal :: "caps \<Rightarrow> string" where
  \<open>error_literal g = ''log.error("'' @ match_group g 1 @ ''");''\<close>

definition error_concat :: "caps \<Rightarrow> string" where
  \<open>error_concat g = ''log.error("'' @ match_group g 1 @ '': {}", '' @ match_group g 2 @ '');''\<close>

definition error_variable :: "caps \<Rightarrow> string" where
  \<open>error_variable g = ''log.error("{}",'' @ match_group g 1 @ '');''\<close>

definition err_patterns :: "(re \<times> (caps \<Rightarrow> string)) list" where
  "err_patterns =
     [(err_literal, error_literal), (err_concat, error_concat), (err_variable, error_variable)]"

definition replace_system_err :: "string \<Rightarrow> string" where
  "replace_system_err content =
     foldl (\<lambda>content (pattern, replacement). re_sub pattern replacement content)
       content err_patterns"

section \<open>Processing one file\<close>

text \<open>
  The file system is a map from a path to the text of the file there; the console is the
  list of lines printed so far. Opening a path that holds no file raises, which aborts the
  run; writing an open file always succeeds.
\<close>

datatype message =
    Procesando string
  | Omitiendo
  | AgregandoImports
  | AgregandoLogger string
  | Actualizado
  | SeActualizaria
  | SinCambios
  | ModoDryRun
  | Encontrados nat
  | Blank
  | Resumen bool nat nat
  | EjecutaSinDryRun

datatype error = FileNotFoundError string

record world =
  files :: "string \<rightharpoonup> string"
  console :: "message list"

definition print :: "message \<Rightarrow> world \<Rightarrow> world" where
  "print m w = w\<lparr>console := console w @ [m]\<rparr>"

definition write_file :: "string \<Rightarrow> string \<Rightarrow> world \<Rightarrow> world" where
  "write_file file_path content w = w\<lparr>files := (files w)(file_path \<mapsto> content)\<rparr>"

definition prints :: "message list \<Rightarrow> world \<Rightarrow> world" where
  "prints ms w = w\<lparr>console := console w @ ms\<rparr>"

text \<open>
  The import step of \<open>process_file\<close>: the new text and the lines it prints.
\<close>

definition import_step :: "string \<Rightarrow> string \<times> message list" where
  "import_step content =
     (if \<not> has_slf4j_import content
      then (add_slf4j_import content, [AgregandoImports])
      else (content, []))"

text \<open>The logger step: \<open>if class_name and not has_logger_declaration(content)\<close>.\<close>

definition logger_step :: "string \<Rightarrow> string \<times> message list" where
  "logger_step content =
     (case get_class_name content of
        None \<Rightarrow> (content, [])
      | Some class_name \<Rightarrow>
          if class_name \<noteq> [] \<and> \<not> has_logger_declaration content
          then (add_logger_declaration content class_name, [AgregandoLogger class_name])
          else (content, []))"

definition process_file :: "string \<Rightarrow> bool \<Rightarrow> world \<Rightarrow> error + (bool \<times> world)" where
  "process_file file_path dry_run w0 =
     (let w1 = print (Procesando file_path) w0
      in case files w1 file_path of
           None \<Rightarrow> Inl (FileNotFoundError file_path)
         | Some original_content \<Rightarrow>
             if \<not> contains ''System.out'' original_content
                \<and> \<not> contains ''System.err'' original_content
             then Inr (False, print Omitiendo w1)
             else
               (let (content1, ms1) = import_step original_content;
                    w2 = prints ms1 w1;
                    (content2, ms2) = logger_step content1;
                    w3 = prints ms2 w2;
                    content3 = replace_system_out content2;
                    content4 = replace_system_err content3
                in if content4 \<noteq> original_content then
                     (if \<not> dry_run
                      then Inr (True, print Actualizado (write_file file_path content4 w3))
                      else Inr (True, print SeActualizaria w3))
                   else Inr (False, print SinCambios w3)))"

text \<open>
  The text \<open>process_file\<close> computes from the text it read, when it does not skip the file.
\<close>

definition transform :: "string \<Rightarrow> string" where
  "transform content =
     replace_system_err (replace_system_out (fst (logger_step (fst (import_step content)))))"

section \<open>Discovery and the main loop\<close>

text \<open>
  A directory holds file names and named subdirectories. \<open>os.walk\<close> lists every directory
  of the tree top-down, parents before children, as its path, the names of its
  subdirectories and the names of its files; a path is joined with \<open>/\<close>.
\<close>

datatype dir = Dir "string list" "(string \<times> dir) list"

definition path_join :: "string \<Rightarrow> string \<Rightarrow> string" where
  "path_join root name = root @ ''/'' @ name"

fun os_walk :: "string \<Rightarrow> dir \<Rightarrow> (string \<times> string list \<times> string list) list" where
  "os_walk root (Dir fs subs) =
     (root, map fst subs, fs) #
       concat (map (\<lambda>p. os_walk (path_join root (fst p)) (snd p)) subs)"

text \<open>The body of the discovery loop for one directory the walk lists.\<close>

definition collect_dir :: "string \<times> string list \<times> string list \<Rightarrow> string list" where
  "collect_dir entry =
     (case entry of (root, dirs, fs) \<Rightarrow>
        if contains ''target'' root \<or> contains ''.git'' root then []
        else map (path_join root) (filter (suffix ''.java'') fs))"

definition java_files :: "dir \<Rightarrow> string list" where
  "java_files tree = concat (map collect_dir (os_walk ''.'' tree))"

text \<open>The processing loop: the count of updated files and the world after it.\<close>

fun process_all :: "string list \<Rightarrow> bool \<Rightarrow> nat \<Rightarrow> world \<Rightarrow> error + (nat \<times> world)" where
  "process_all [] dry_run updated_count w = Inr (updated_count, w)"
| "process_all (file_path # rest) dry_run updated_count w =
     (case process_file file_path dry_run w of
        Inl e \<Rightarrow> Inl e
      | Inr (updated, w') \<Rightarrow>
          process_all rest dry_run (if updated then updated_count + 1 else updated_count)
            (print Blank w'))"

definition main :: "string list \<Rightarrow> dir \<Rightarrow> world \<Rightarrow> error + (nat \<times> world)" where
  "main argv tree w0 =
     (let dry_run = (''--dry-run'' \<in> set argv);
          w1 = (if dry_run then print ModoDryRun w0 else w0);
          found = java_files tree;
          w2 = print (Encontrados (length found)) w1
      in case process_all found dry_run 0 w2 of
           Inl e \<Rightarrow> Inl e
         | Inr (updated_count, w3) \<Rightarrow>
             (let w4 = print (Resumen dry_run updated_count (length found)) w3
              in Inr (updated_count, if dry_run then print EjecutaSinDryRun w4 else w4)))"

section \<open>Auxiliary notions and sample inputs\<close>

text \<open>The relevance check at the head of \<open>process_file\<close>.\<close>

definition has_marker :: "string \<Rightarrow> bool" where
  "has_marker content = (contains ''System.out'' content \<or> contains ''System.err'' content)"

text \<open>The progress lines of the two insertion steps, in order.\<close>

definition step_messages :: "string \<Rightarrow> message list" where
  "step_messages content = snd (import_step content) @ snd (logger_step (fst (import_step content)))"

definition two_calls :: string where
  \<open>two_calls = ''System.out.println(a);\<newline>System.out.println(b);''\<close>

definition plain_world :: world where
  "plain_world = \<lparr>files = [''./A.java'' \<mapsto> ''class A {}''], console = []\<rparr>"

definition calls_world :: world where
  "calls_world = \<lparr>files = [''./A.java'' \<mapsto> two_calls], console = []\<rparr>"

text \<open>
  The set of texts a pattern matches, as the reference the matcher is checked against.
\<close>

fun lang :: "re \<Rightarrow> string set" where
  "lang (Lit s) = {s}"
| "lang (Plus p) = {w. w \<noteq> [] \<and> (\<forall>c \<in> set w. p c)}"
| "lang (Star p) = {w. \<forall>c \<in> set w. p c}"
| "lang (Seq a b) = {u @ v | u v. u \<in> lang a \<and> v \<in> lang b}"
| "lang (Opt a) = insert [] (lang a)"
| "lang (Group i a) = lang a"

definition one_import :: string where
  \<open>one_import = ''import java.util.List;\<newline>public class A {\<newline>  // System.out\<newline>}''\<close>

definition one_import_out :: string where
  \<open>one_import_out = ''import java.util.List;\<newline>import org.slf4j.Logger;\<newline>import org.slf4j.LoggerFactory;\<newline>public class A {\<newline>  // System.out\<newline>}''\<close>

definition sample_tree :: dir where
  "sample_tree =
     Dir [''A.java'', ''notes.txt'']
       [(''src'', Dir [''B.java''] []),
        (''target'', Dir [''C.java''] [(''classes'', Dir [''D.java''] [])]),
        (''.git'', Dir [''E.java''] [])]"

text \<open>The test of the discovery loop on a directory path.\<close>

definition marked :: "string \<Rightarrow> bool" where
  "marked root = (contains ''target'' root \<or> contains ''.git'' root)"
















text \<open>
  The text of a readable file after \<open>process_file\<close> ran on it without the preview flag.
\<close>

definition file_after :: "string \<Rightarrow> string" where
  "file_after content = (if has_marker content then transform content else content)"



definition out_hello_call :: string where
  \<open>out_hello_call = ''System.out.println("Hello");''\<close>

definition info_hello_call :: string where
  \<open>info_hello_call = ''log.info("Hello");''\<close>

definition hello_world :: world where
  "hello_world = \<lparr>files = [''./A.java'' \<mapsto> out_hello_call], console = []\<rparr>"

definition tree_world :: world where
  "tree_world =
     \<lparr>files = [''./A.java'' \<mapsto> two_calls, ''./src/B.java'' \<mapsto> ''class B {}''],
      console = []\<rparr>"

definition ex_class_capture :: string where
  \<open>ex_class_capture = ''public class System.out.println(x);\<newline>public class log {\<newline>// System.out''\<close>

definition ex_class_capture_once :: string where
  \<open>ex_class_capture_once = ''public class log.info("{}",x);\<newline>public class log {\<newline>// System.out''\<close>

definition ex_class_capture_twice :: string where
  \<open>ex_class_capture_twice = ''public class log.info("{}",x);\<newline>public class log {\<newline>\<newline>    private static final Logger log = LoggerFactory.getLogger(log.class);\<newline>// System.out''\<close>

section \<open>Properties of the file processing\<close>

lemma prints_prints: "prints b (prints a w) = prints (a @ b) w"
  by (simp add: prints_def)

lemma print_prints: "print m w = prints [m] w"
  by (simp add: prints_def print_def)

lemma process_file_eq:
  assumes "files w p = Some c"
  shows "process_file p d w =
     (if \<not> has_marker c then Inr (False, prints [Procesando p, Omitiendo] w)
      else if transform c = c
        then Inr (False, prints (Procesando p # step_messages c @ [SinCambios]) w)
      else if d
        then Inr (True, prints (Procesando p # step_messages c @ [SeActualizaria]) w)
      else Inr (True, prints [Actualizado]
             (write_file p (transform c) (prints (Procesando p # step_messages c) w))))"
  using assms
  by (simp add: process_file_def has_marker_def transform_def step_messages_def Let_def
      prints_def print_def write_file_def case_prod_beta)

lemma process_file_missing:
  "files w p = None \<Longrightarrow> process_file p d w = Inl (FileNotFoundError p)"
  by (simp add: process_file_def Let_def print_def)

text \<open>
  Claim C4. A file whose text holds neither \<open>System.out\<close> nor \<open>System.err\<close> is skipped:
  the verdict is \<open>False\<close>, the world changes only by the two progress lines, so no file is
  written, and the loop's count of updated files stays as it was.
\<close>

theorem unmarked_file_untouched:
  assumes "files w p = Some c" and "\<not> contains ''System.out'' c" and "\<not> contains ''System.err'' c"
  shows "process_file p d w = Inr (False, w\<lparr>console := console w @ [Procesando p, Omitiendo]\<rparr>)
       \<and> (\<exists>w'. process_all [p] d n w = Inr (n, w') \<and> files w' = files w)"
  using assms by (simp add: process_file_eq has_marker_def prints_def print_def)

theorem unmarked_file_untouched_witness:
  "process_file ''./A.java'' False plain_world =
     Inr (False, plain_world\<lparr>console := [Procesando ''./A.java'', Omitiendo]\<rparr>)
   \<and> (\<exists>w'. process_all [''./A.java''] False 0 plain_world = Inr (0, w')
          \<and> files w' = files plain_world)"
proof -
  have f: "files plain_world ''./A.java'' = Some ''class A {}''"
    by (simp add: plain_world_def)
  have a: "\<not> contains ''System.out'' ''class A {}''" by code_simp
  have b: "\<not> contains ''System.err'' ''class A {}''" by code_simp
  have c: "console plain_world = []" by (simp add: plain_world_def)
  show ?thesis
    using unmarked_file_untouched [OF f a b, of False 0] c by (simp add: print_def)
qed

text \<open>
  Claim C7. For a file that would change (it holds a marker and the transformation alters
  its text), the preview run returns \<open>True\<close>, leaves every file as it was and ends its
  progress lines with the would-be-updated line; the run without the flag is the one that
  writes the transformed text.
\<close>

theorem preview_leaves_files:
  assumes "files w p = Some c" and "has_marker c" and "transform c \<noteq> c"
  shows "process_file p True w =
           Inr (True, w\<lparr>console := console w @ Procesando p # step_messages c @ [SeActualizaria]\<rparr>)
       \<and> process_file p False w =
           Inr (True, w\<lparr>files := (files w)(p \<mapsto> transform c),
                         console := console w @ Procesando p # step_messages c @ [Actualizado]\<rparr>)"
  using assms by (simp add: process_file_eq prints_def write_file_def)

theorem preview_leaves_files_witness:
  "process_file ''./A.java'' True calls_world =
     Inr (True, calls_world\<lparr>console :=
       [Procesando ''./A.java'', AgregandoImports, SeActualizaria]\<rparr>)"
proof -
  have f: "files calls_world ''./A.java'' = Some two_calls"
    by (simp add: calls_world_def)
  have m: "has_marker two_calls" by code_simp
  have t: "transform two_calls \<noteq> two_calls" by code_simp
  have s: "step_messages two_calls = [AgregandoImports]" by code_simp
  have c: "console calls_world = []" by (simp add: calls_world_def)
  have "process_file ''./A.java'' True calls_world =
     Inr (True, calls_world\<lparr>console := console calls_world
       @ Procesando ''./A.java'' # step_messages two_calls @ [SeActualizaria]\<rparr>)"
    using preview_leaves_files [OF f m t] by (rule conjunct1)
  then show ?thesis by (simp only: s c append_Nil append_Cons)
qed

text \<open>
  Claim C9. For a readable file there are a verdict \<open>b\<close>, a text \<open>t\<close> and progress lines
  \<open>ms\<close>, fixed before the preview flag \<open>d\<close> is chosen, such that both runs return \<open>b\<close>; the
  flag decides only whether \<open>t\<close> is written and which closing line is printed.
\<close>

theorem dry_run_noninterference:
  assumes "files w p = Some c"
  shows "\<exists>b t ms. \<forall>d. process_file p d w =
           Inr (b, if b \<and> \<not> d then print Actualizado (write_file p t (prints ms w))
                   else if b then print SeActualizaria (prints ms w)
                   else prints ms w)"
proof (cases "has_marker c")
  case False
  with assms show ?thesis
    by (intro exI [of _ False] exI [of _ c] exI [of _ "[Procesando p, Omitiendo]"])
      (simp add: process_file_eq)
next
  case True
  show ?thesis
  proof (cases "transform c = c")
    case same: True
    with True assms show ?thesis
      by (intro exI [of _ False] exI [of _ c]
          exI [of _ "Procesando p # step_messages c @ [SinCambios]"])
        (simp add: process_file_eq)
  next
    case False
    with True assms show ?thesis
      by (intro exI [of _ True] exI [of _ "transform c"]
          exI [of _ "Procesando p # step_messages c"])
        (simp add: process_file_eq prints_def print_def write_file_def)
  qed
qed

theorem dry_run_noninterference_witness:
  "\<exists>b t ms. \<forall>d. process_file ''./A.java'' d calls_world =
           Inr (b, if b \<and> \<not> d then print Actualizado (write_file ''./A.java'' t (prints ms calls_world))
                   else if b then print SeActualizaria (prints ms calls_world)
                   else prints ms calls_world)"
proof -
  have f: "files calls_world ''./A.java'' = Some two_calls"
    by (simp add: calls_world_def)
  show ?thesis using dry_run_noninterference [OF f] .
qed

section \<open>The matcher against the language of a pattern\<close>

lemma take_all_iff_takeWhile:
  "(k \<le> length xs \<and> (\<forall>c \<in> set (take k xs). p c)) \<longleftrightarrow> k \<le> length (takeWhile p xs)"
proof (induction xs arbitrary: k)
  case Nil
  then show ?case by simp
next
  case (Cons x xs)
  show ?case
  proof (cases k)
    case 0
    then show ?thesis by simp
  next
    case (Suc j)
    with Cons.IH [of j] show ?thesis by auto
  qed
qed

lemma rmatch_Seq_iff:
  "(n, g) \<in> set (rmatch (Seq a b) xs) \<longleftrightarrow>
     (\<exists>n1 g1 n2 g2. (n1, g1) \<in> set (rmatch a xs) \<and> (n2, g2) \<in> set (rmatch b (drop n1 xs))
        \<and> n = n1 + n2 \<and> g = g1 @ g2)"
  by (auto simp: image_iff) force

lemma rmatch_le: "(n, g) \<in> set (rmatch r xs) \<Longrightarrow> n \<le> length xs"
proof (induction r arbitrary: n g xs)
  case (Lit s)
  then show ?case by (auto simp: prefix_def split: if_splits)
next
  case (Plus p)
  then have "n \<le> length (takeWhile p xs)" by auto
  then show ?case using take_all_iff_takeWhile by blast
next
  case (Star p)
  then have "n \<le> length (takeWhile p xs)" by auto
  then show ?case using take_all_iff_takeWhile by blast
next
  case (Seq a b)
  from Seq.prems obtain n1 g1 n2 g2 where
    "(n1, g1) \<in> set (rmatch a xs)" "(n2, g2) \<in> set (rmatch b (drop n1 xs))" "n = n1 + n2"
    unfolding rmatch_Seq_iff by blast
  with Seq.IH(1) [of n1 g1 xs] Seq.IH(2) [of n2 g2 "drop n1 xs"] show ?case by simp
next
  case (Opt a)
  then show ?case by auto
next
  case (Group i a)
  then show ?case by auto
qed

lemma rmatch_sound: "(n, g) \<in> set (rmatch r xs) \<Longrightarrow> take n xs \<in> lang r"
proof (induction r arbitrary: n g xs)
  case (Lit s)
  then show ?case by (auto simp: prefix_def split: if_splits)
next
  case (Plus p)
  then have n: "1 \<le> n" "n \<le> length (takeWhile p xs)" by auto
  then have "n \<le> length xs" "\<forall>c \<in> set (take n xs). p c"
    using take_all_iff_takeWhile [of n xs p] by blast+
  with n show ?case by auto
next
  case (Star p)
  then have n: "n \<le> length (takeWhile p xs)" by auto
  then have "\<forall>c \<in> set (take n xs). p c"
    using take_all_iff_takeWhile [of n xs p] by blast
  then show ?case by simp
next
  case (Seq a b)
  from Seq.prems obtain n1 g1 n2 g2 where
    m: "(n1, g1) \<in> set (rmatch a xs)" "(n2, g2) \<in> set (rmatch b (drop n1 xs))" "n = n1 + n2"
    unfolding rmatch_Seq_iff by blast
  have "take n xs = take n1 xs @ take n2 (drop n1 xs)"
    using m(3) by (simp add: take_add)
  with Seq.IH(1) [OF m(1)] Seq.IH(2) [OF m(2)] show ?case by auto
next
  case (Opt a)
  then show ?case by auto
next
  case (Group i a)
  then show ?case by auto
qed

lemma rmatch_complete:
  "n \<le> length xs \<Longrightarrow> take n xs \<in> lang r \<Longrightarrow> \<exists>g. (n, g) \<in> set (rmatch r xs)"
proof (induction r arbitrary: n xs)
  case (Lit s)
  then have "take n xs = s" by simp
  then have "prefix s xs" "length s = n"
    using Lit.prems(1) by (auto simp: take_is_prefix)
  then show ?case by auto
next
  case (Plus p)
  then have "n \<le> length (takeWhile p xs)" "n \<noteq> 0"
    using take_all_iff_takeWhile [of n xs p] by auto
  then show ?case by (auto simp: image_iff)
next
  case (Star p)
  then have "n \<le> length (takeWhile p xs)"
    using take_all_iff_takeWhile [of n xs p] by auto
  then show ?case by (auto simp: image_iff)
next
  case (Seq a b)
  from Seq.prems(2) obtain u v where uv: "take n xs = u @ v" "u \<in> lang a" "v \<in> lang b"
    by auto
  define n1 where "n1 = length u"
  define n2 where "n2 = length v"
  have "length (take n xs) = length (u @ v)" using uv(1) by simp
  then have len: "n = n1 + n2" using Seq.prems(1) by (simp add: n1_def n2_def)
  have "take n1 (take n xs) = u" using uv(1) by (simp add: n1_def)
  then have u: "take n1 xs = u" using len by (simp add: min_def)
  have "drop n1 (take n xs) = v" using uv(1) by (simp add: n1_def)
  then have v: "take n2 (drop n1 xs) = v" using len by (simp add: drop_take)
  have b1: "n1 \<le> length xs" and b2: "n2 \<le> length (drop n1 xs)"
    using len Seq.prems(1) by simp_all
  have "\<exists>g. (n1, g) \<in> set (rmatch a xs)"
    using Seq.IH(1) [OF b1] u uv(2) by simp
  then obtain g1 where g1: "(n1, g1) \<in> set (rmatch a xs)" by blast
  have "\<exists>g. (n2, g) \<in> set (rmatch b (drop n1 xs))"
    using Seq.IH(2) [OF b2] v uv(3) by simp
  then obtain g2 where g2: "(n2, g2) \<in> set (rmatch b (drop n1 xs))" by blast
  from g1 g2 len show ?case unfolding rmatch_Seq_iff by blast
next
  case (Opt a)
  then show ?case by (cases "n = 0") auto
next
  case (Group i a)
  then obtain g where "(n, g) \<in> set (rmatch a xs)" by fastforce
  then show ?case by force
qed

lemma rmatch_empty_iff:
  "rmatch r xs = [] \<longleftrightarrow> (\<forall>n \<le> length xs. take n xs \<notin> lang r)"
proof
  assume e: "rmatch r xs = []"
  show "\<forall>n \<le> length xs. take n xs \<notin> lang r"
  proof (intro allI impI notI)
    fix n assume "n \<le> length xs" "take n xs \<in> lang r"
    then obtain g where "(n, g) \<in> set (rmatch r xs)" using rmatch_complete by blast
    with e show False by simp
  qed
next
  assume a: "\<forall>n \<le> length xs. take n xs \<notin> lang r"
  show "rmatch r xs = []"
  proof (rule ccontr)
    assume "rmatch r xs \<noteq> []"
    then obtain n g where m: "(n, g) \<in> set (rmatch r xs)"
      by (cases "rmatch r xs") auto
    with a rmatch_le rmatch_sound show False by blast
  qed
qed

lemma rmatch_hd_mem: "rmatch r xs = (n, g) # rest \<Longrightarrow> (n, g) \<in> set (rmatch r xs)"
  by simp

lemma rmatch_pos: "[] \<notin> lang r \<Longrightarrow> (n, g) \<in> set (rmatch r xs) \<Longrightarrow> 0 < n"
  using rmatch_sound [of n g r xs] by (cases n) auto

lemma finditer_at_elem:
  "(s, e, g) \<in> set (finditer_at r k xs) \<Longrightarrow>
     k \<le> s \<and> s \<le> e \<and> e \<le> k + length xs
     \<and> (\<exists>rest. rmatch r (drop (s - k) xs) = (e - s, g) # rest)"
proof (induction r k xs rule: finditer_at.induct)
  case (1 r k)
  show ?case
  proof (cases "rmatch r []")
    case Nil
    with 1 show ?thesis by simp
  next
    case (Cons ng rest)
    obtain n g0 where ng: "ng = (n, g0)" by (cases ng) auto
    have "n = 0" using rmatch_le [of n g0 r "[]"] Cons ng by simp
    with 1 Cons ng show ?thesis by simp
  qed
next
  case (2 r k x xs)
  show ?case
  proof (cases "rmatch r (x # xs)")
    case Nil
    with "2.prems" have "(s, e, g) \<in> set (finditer_at r (Suc k) xs)" by simp
    with "2.IH"(1) [OF Nil] have
      "Suc k \<le> s \<and> s \<le> e \<and> e \<le> Suc k + length xs
       \<and> (\<exists>rest. rmatch r (drop (s - Suc k) xs) = (e - s, g) # rest)" by blast
    moreover from this have "s - k = Suc (s - Suc k)" by arith
    then have "drop (s - k) (x # xs) = drop (s - Suc k) xs" by simp
    ultimately show ?thesis by auto
  next
    case (Cons ng rest)
    obtain n g0 where ng: "ng = (n, g0)" by (cases ng) auto
    have le: "n \<le> length (x # xs)"
      using rmatch_le [of n g0 r "x # xs"] Cons ng by simp
    show ?thesis
    proof (cases "(s, e, g) = (k, k + n, g0)")
      case True
      with Cons ng le show ?thesis by auto
    next
      case False
      show ?thesis
      proof (cases "n = 0")
        case True
        with False "2.prems" Cons ng have "(s, e, g) \<in> set (finditer_at r (Suc k) xs)"
          by auto
        with "2.IH"(2) [OF Cons [unfolded ng] refl True] have
          "Suc k \<le> s \<and> s \<le> e \<and> e \<le> Suc k + length xs
           \<and> (\<exists>rest. rmatch r (drop (s - Suc k) xs) = (e - s, g) # rest)" by blast
        moreover from this have "s - k = Suc (s - Suc k)" by arith
        then have "drop (s - k) (x # xs) = drop (s - Suc k) xs" by simp
        ultimately show ?thesis by auto
      next
        case n0: False
        with False "2.prems" Cons ng have
          "(s, e, g) \<in> set (finditer_at r (k + n) (drop n (x # xs)))" by auto
        with "2.IH"(3) [OF Cons [unfolded ng] refl n0] have h:
          "k + n \<le> s \<and> s \<le> e \<and> e \<le> k + n + length (drop n (x # xs))
           \<and> (\<exists>rest. rmatch r (drop (s - (k + n)) (drop n (x # xs))) = (e - s, g) # rest)"
          by blast
        then have "drop (s - (k + n)) (drop n (x # xs)) = drop (s - k) (x # xs)"
          by (simp del: drop_Suc_Cons)
        with h le show ?thesis by (auto simp del: drop_Suc_Cons)
      qed
    qed
  qed
qed

lemma finditer_at_Nil_iff:
  "finditer_at r k xs = [] \<longleftrightarrow> (\<forall>i. rmatch r (drop i xs) = [])"
proof (induction r k xs rule: finditer_at.induct)
  case (1 r k)
  then show ?case by (auto split: list.splits)
next
  case (2 r k x xs)
  show ?case
  proof (cases "rmatch r (x # xs)")
    case Nil
    have "(\<forall>i. rmatch r (drop i (x # xs)) = []) \<longleftrightarrow> (\<forall>i. rmatch r (drop i xs) = [])"
    proof
      assume a: "\<forall>i. rmatch r (drop i (x # xs)) = []"
      show "\<forall>i. rmatch r (drop i xs) = []"
      proof
        fix i from a have "rmatch r (drop (Suc i) (x # xs)) = []" by blast
        then show "rmatch r (drop i xs) = []" by simp
      qed
    next
      assume a: "\<forall>i. rmatch r (drop i xs) = []"
      show "\<forall>i. rmatch r (drop i (x # xs)) = []"
      proof
        fix i show "rmatch r (drop i (x # xs)) = []"
          using a Nil by (cases i) auto
      qed
    qed
    with "2.IH"(1) [OF Nil] Nil show ?thesis by simp
  next
    case (Cons ng rest)
    then have "rmatch r (drop 0 (x # xs)) \<noteq> []" by simp
    then have "\<not> (\<forall>i. rmatch r (drop i (x # xs)) = [])" by blast
    with Cons show ?thesis by (simp split: prod.splits)
  qed
qed

lemma finditer_at_last:
  "[] \<notin> lang r \<Longrightarrow> finditer_at r k xs \<noteq> [] \<Longrightarrow> last (finditer_at r k xs) = (s, e, g) \<Longrightarrow>
         \<forall>i. e - k \<le> i \<longrightarrow> rmatch r (drop i xs) = []"
proof (induction r k xs rule: finditer_at.induct)
  case (1 r k)
  note nl = "1.prems"(1)
  have "rmatch r [] = []"
  proof (cases "rmatch r []")
    case (Cons ng rest)
    obtain n g0 where ng: "ng = (n, g0)" by (cases ng) auto
    have "rmatch r [] = (n, g0) # rest" using Cons ng by simp
    then have "(n, g0) \<in> set (rmatch r [])" by (rule rmatch_hd_mem)
    then have "0 < n" by (rule rmatch_pos [OF nl])
    moreover have "n = 0" using rmatch_le [of n g0 r "[]"] Cons ng by simp
    ultimately show ?thesis by simp
  qed simp
  with "1.prems" show ?case by simp
next
  case (2 r k x xs)
  note nl = "2.prems"(1)
  show ?case
  proof (cases "rmatch r (x # xs)")
    case Nil
    with "2.prems" have ne: "finditer_at r (Suc k) xs \<noteq> []"
      and la: "last (finditer_at r (Suc k) xs) = (s, e, g)" by simp_all
    from "2.IH"(1) [OF Nil nl ne la]
    have ih: "\<forall>i. e - Suc k \<le> i \<longrightarrow> rmatch r (drop i xs) = []" .
    have "(s, e, g) \<in> set (finditer_at r (Suc k) xs)"
      using ne la last_in_set by metis
    then have ek: "Suc k \<le> e" using finditer_at_elem by fastforce
    show ?thesis
    proof (intro allI impI)
      fix i assume "e - k \<le> i"
      with ek obtain j where "i = Suc j" "e - Suc k \<le> j" by (cases i) auto
      with ih show "rmatch r (drop i (x # xs)) = []" by simp
    qed
  next
    case (Cons ng rest)
    obtain n g0 where ng: "ng = (n, g0)" by (cases ng) auto
    have "rmatch r (x # xs) = (n, g0) # rest" using Cons ng by simp
    then have "(n, g0) \<in> set (rmatch r (x # xs))" by (rule rmatch_hd_mem)
    then have "0 < n" by (rule rmatch_pos [OF nl])
    then have n0: "n \<noteq> 0" by simp
    let ?tl = "finditer_at r (k + n) (drop n (x # xs))"
    have unf: "finditer_at r k (x # xs) = (k, k + n, g0) # ?tl"
      using Cons ng n0 by simp
    show ?thesis
    proof (cases "?tl = []")
      case True
      with unf "2.prems" have e: "e = k + n" by simp
      from True have a: "\<forall>i. rmatch r (drop i (drop n (x # xs))) = []"
        using finditer_at_Nil_iff by blast
      show ?thesis
      proof (intro allI impI)
        fix i assume "e - k \<le> i"
        with e have "i = (i - n) + n" by simp
        then have "drop i (x # xs) = drop (i - n) (drop n (x # xs))"
          by (metis drop_drop)
        with a show "rmatch r (drop i (x # xs)) = []" by metis
      qed
    next
      case False
      with unf "2.prems" have la: "last ?tl = (s, e, g)" by simp
      from "2.IH"(3) [OF Cons [unfolded ng] refl n0 nl False la]
      have ih: "\<forall>i. e - (k + n) \<le> i \<longrightarrow> rmatch r (drop i (drop n (x # xs))) = []" .
      have "(s, e, g) \<in> set ?tl" using False la last_in_set by metis
      then have ek: "k + n \<le> e" using finditer_at_elem by fastforce
      show ?thesis
      proof (intro allI impI)
        fix i assume i: "e - k \<le> i"
        with ek have "i = (i - n) + n" by simp
        then have d: "drop i (x # xs) = drop (i - n) (drop n (x # xs))"
          by (metis drop_drop)
        from i ek have "e - (k + n) \<le> i - n" by simp
        with ih d show "rmatch r (drop i (x # xs)) = []" by metis
      qed
    qed
  qed
qed

lemma contains_iff: "contains m xs \<longleftrightarrow> (\<exists>ps ss. xs = ps @ m @ ss)"
proof (induction xs)
  case Nil
  then show ?case by auto
next
  case (Cons x xs)
  show ?case
  proof
    assume "contains m (x # xs)"
    then consider "prefix m (x # xs)" | "contains m xs" by auto
    then show "\<exists>ps ss. x # xs = ps @ m @ ss"
    proof cases
      case 1
      then obtain ss where "x # xs = m @ ss" by (auto simp: prefix_def)
      then have "x # xs = [] @ m @ ss" by simp
      then show ?thesis by blast
    next
      case 2
      with Cons.IH obtain ps ss where "xs = ps @ m @ ss" by blast
      then have "x # xs = (x # ps) @ m @ ss" by simp
      then show ?thesis by blast
    qed
  next
    assume "\<exists>ps ss. x # xs = ps @ m @ ss"
    then obtain ps ss where e: "x # xs = ps @ m @ ss" by blast
    show "contains m (x # xs)"
    proof (cases ps)
      case Nil
      with e have "prefix m (x # xs)" by (simp add: prefix_def)
      then show ?thesis by simp
    next
      case (Cons p ps')
      with e have "xs = ps' @ m @ ss" by simp
      with Cons.IH have "contains m xs" by blast
      then show ?thesis by simp
    qed
  qed
qed

lemma contains_extend: "contains m a \<Longrightarrow> prefix a b \<Longrightarrow> contains m b"
  unfolding contains_iff prefix_def by (metis append.assoc)

lemma os_walk_prefix: "(r, ds, fs) \<in> set (os_walk root t) \<Longrightarrow> prefix root r"
proof (induction root t arbitrary: r ds fs rule: os_walk.induct)
  case (1 root fs' subs)
  from "1.prems" consider "r = root"
    | p where "p \<in> set subs" "(r, ds, fs) \<in> set (os_walk (path_join root (fst p)) (snd p))"
    by auto
  then show ?case
  proof cases
    case 1
    then show ?thesis by simp
  next
    case 2
    with "1.IH" have "prefix (path_join root (fst p)) r" by blast
    then show ?thesis by (auto simp: path_join_def prefix_def)
  qed
qed

lemma collected_paths_unmarked:
  assumes "p \<in> set (java_files tree)"
  shows "\<exists>root dirs fs name.
           (root, dirs, fs) \<in> set (os_walk ''.'' tree) \<and> name \<in> set fs
           \<and> suffix ''.java'' name \<and> p = path_join root name
           \<and> (\<forall>d. prefix d root \<longrightarrow> \<not> marked d)"
proof -
  from assms obtain entry where e: "entry \<in> set (os_walk ''.'' tree)" "p \<in> set (collect_dir entry)"
    by (auto simp: java_files_def)
  obtain root dirs fs where entry: "entry = (root, dirs, fs)" by (cases entry) auto
  from e(2) entry have nm: "\<not> marked root" and "p \<in> path_join root ` set (filter (suffix ''.java'') fs)"
    by (auto simp: collect_dir_def marked_def split: if_splits)
  then obtain name where n: "name \<in> set fs" "suffix ''.java'' name" "p = path_join root name"
    by auto
  have "\<not> marked d" if "prefix d root" for d
    using nm that contains_extend unfolding marked_def by blast
  with e(1) entry n show ?thesis by blast
qed

text \<open>The walk of a directory with such a path contributes no file at all.\<close>

lemma marked_subtree_empty:
  assumes "marked root"
  shows "concat (map collect_dir (os_walk root t)) = []"
proof -
  have "collect_dir entry = []" if "entry \<in> set (os_walk root t)" for entry
  proof -
    obtain r ds fs where entry: "entry = (r, ds, fs)" by (cases entry) auto
    with that have "prefix root r" using os_walk_prefix by blast
    with assms have "marked r" unfolding marked_def using contains_extend by blast
    with entry show ?thesis by (simp add: collect_dir_def marked_def)
  qed
  then show ?thesis by simp
qed

section \<open>The import insertion\<close>

lemma import_pattern_nonempty: "[] \<notin> lang import_pattern"
  by (simp add: import_pattern_def)

lemma rmatch_none_iff:
  "(\<forall>i. rmatch r (drop i xs) = []) \<longleftrightarrow> (\<forall>i n. take n (drop i xs) \<notin> lang r)"
proof
  assume a: "\<forall>i. rmatch r (drop i xs) = []"
  show "\<forall>i n. take n (drop i xs) \<notin> lang r"
  proof (intro allI)
    fix i n
    let ?ys = "drop i xs"
    have e: "\<forall>m \<le> length ?ys. take m ?ys \<notin> lang r"
      using a rmatch_empty_iff by blast
    show "take n ?ys \<notin> lang r"
    proof (cases "n \<le> length ?ys")
      case True
      with e show ?thesis by blast
    next
      case False
      then have "take n ?ys = take (length ?ys) ?ys" by simp
      with e show ?thesis by (metis order_refl)
    qed
  qed
next
  assume "\<forall>i n. take n (drop i xs) \<notin> lang r"
  then show "\<forall>i. rmatch r (drop i xs) = []"
    using rmatch_empty_iff by blast
qed

text \<open>
  Claim C2. The import pattern matches nowhere in the content exactly when
  \<open>re.finditer\<close> finds nothing, and then \<open>add_slf4j_import\<close> returns the content as it is.
  Otherwise the last match found spans a text of the pattern's language from \<open>s\<close> to
  \<open>e\<close>, no text of that language begins at or after \<open>e\<close>, and the result is the content
  with the text \<open>\nimport org.slf4j.Logger;\nimport org.slf4j.LoggerFactory;\<close> put in at
  offset \<open>e\<close>, every other character kept. The absence of the marker import is not needed
  for this.
\<close>

theorem add_slf4j_import_after_last_import:
  "(re_finditer import_pattern content = [])
      = (\<forall>i n. take n (drop i content) \<notin> lang import_pattern)
   \<and> (re_finditer import_pattern content = [] \<longrightarrow> add_slf4j_import content = content)
   \<and> (re_finditer import_pattern content \<noteq> [] \<longrightarrow>
        (\<exists>s e g. last (re_finditer import_pattern content) = (s, e, g)
           \<and> s < e \<and> e \<le> length content
           \<and> take (e - s) (drop s content) \<in> lang import_pattern
           \<and> (\<forall>i n. e \<le> i \<longrightarrow> take n (drop i content) \<notin> lang import_pattern)
           \<and> add_slf4j_import content
               = take e content @ ''\<newline>import org.slf4j.Logger;\<newline>import org.slf4j.LoggerFactory;''
                 @ drop e content))"
proof (intro conjI impI)
  show "(re_finditer import_pattern content = [])
      = (\<forall>i n. take n (drop i content) \<notin> lang import_pattern)"
    unfolding re_finditer_def finditer_at_Nil_iff rmatch_none_iff ..
next
  assume "re_finditer import_pattern content = []"
  then show "add_slf4j_import content = content"
    by (simp add: add_slf4j_import_def)
next
  assume ne: "re_finditer import_pattern content \<noteq> []"
  obtain s e g where la: "last (re_finditer import_pattern content) = (s, e, g)"
    by (cases "last (re_finditer import_pattern content)") auto
  have mem: "(s, e, g) \<in> set (finditer_at import_pattern 0 content)"
    using ne la last_in_set unfolding re_finditer_def by metis
  from finditer_at_elem [OF mem] obtain rest where
    b: "s \<le> e" "e \<le> length content"
    and m: "rmatch import_pattern (drop s content) = (e - s, g) # rest"
    by auto
  from m have hm: "(e - s, g) \<in> set (rmatch import_pattern (drop s content))"
    by (rule rmatch_hd_mem)
  have "0 < e - s" using rmatch_pos [OF import_pattern_nonempty hm] .
  then have lt: "s < e" by simp
  have inl: "take (e - s) (drop s content) \<in> lang import_pattern"
    using rmatch_sound [OF hm] .
  have after: "\<forall>i. e - 0 \<le> i \<longrightarrow> rmatch import_pattern (drop i content) = []"
    using finditer_at_last [OF import_pattern_nonempty] ne la
    unfolding re_finditer_def by blast
  have no: "\<forall>i n. e \<le> i \<longrightarrow> take n (drop i content) \<notin> lang import_pattern"
  proof (intro allI impI)
    fix i n assume i: "e \<le> i"
    have "\<forall>j. rmatch import_pattern (drop j (drop i content)) = []"
    proof
      fix j from after i have "rmatch import_pattern (drop (j + i) content) = []" by simp
      then show "rmatch import_pattern (drop j (drop i content)) = []" by simp
    qed
    then have "\<forall>j m. take m (drop j (drop i content)) \<notin> lang import_pattern"
      unfolding rmatch_none_iff .
    then have "take n (drop 0 (drop i content)) \<notin> lang import_pattern" by blast
    then show "take n (drop i content) \<notin> lang import_pattern" by simp
  qed
  have "add_slf4j_import content = take e content @ ''\<newline>import org.slf4j.Logger;\<newline>import org.slf4j.LoggerFactory;''
                 @ drop e content"
    using ne la by (simp add: add_slf4j_import_def Let_def slf4j_imports_def)
  with la lt b inl no
  show "\<exists>s e g. last (re_finditer import_pattern content) = (s, e, g)
           \<and> s < e \<and> e \<le> length content
           \<and> take (e - s) (drop s content) \<in> lang import_pattern
           \<and> (\<forall>i n. e \<le> i \<longrightarrow> take n (drop i content) \<notin> lang import_pattern)
           \<and> add_slf4j_import content
               = take e content @ ''\<newline>import org.slf4j.Logger;\<newline>import org.slf4j.LoggerFactory;''
                 @ drop e content"
    by blast
qed

theorem add_slf4j_import_after_last_import_witness:
  "add_slf4j_import one_import = one_import_out"
proof -
  have f: "re_finditer import_pattern one_import = [(0, 22, [(1, ''import java.util.List;'')])]"
    by code_simp
  then have "re_finditer import_pattern one_import \<noteq> []" by simp
  with add_slf4j_import_after_last_import [of one_import] obtain s e g where
    "last (re_finditer import_pattern one_import) = (s, e, g)"
    "add_slf4j_import one_import
       = take e one_import @ ''\<newline>import org.slf4j.Logger;\<newline>import org.slf4j.LoggerFactory;''
           @ drop e one_import"
    by blast
  with f show ?thesis by (simp add: one_import_def one_import_out_def)
qed

section \<open>Searching\<close>





section \<open>The class name and the class pattern\<close>




section \<open>The two insertion steps\<close>


lemma splice_length: "length (take e xs @ ys @ drop e xs) = length xs + length ys"
  by simp





section \<open>Sample files, evaluated\<close>




















section \<open>Substitution\<close>



lemma rmatch_head_literal:
  "\<not> prefix s xs \<Longrightarrow> rmatch (Seq (Lit s) r) xs = []"
  by simp





lemma prefix_take: "prefix h ys \<Longrightarrow> take (length h) ys = h"
  by (auto simp: prefix_def)

















section \<open>Running twice\<close>





lemma out_hello_after: "file_after out_hello_call = info_hello_call"
  by code_simp

lemma info_hello_no_marker: "\<not> has_marker info_hello_call"
  by code_simp


section \<open>Discovery and what gets processed\<close>

lemma process_file_frame:
  assumes "process_file p d w = Inr (b, w')"
  shows "\<exists>ms. console w' = console w @ ms \<and> (\<forall>q. Procesando q \<in> set ms \<longrightarrow> q = p)
           \<and> (\<forall>q. q \<noteq> p \<longrightarrow> files w' q = files w q)
           \<and> dom (files w) \<subseteq> dom (files w')"
proof (cases "files w p")
  case None
  with assms show ?thesis by (simp add: process_file_missing)
next
  case (Some c)
  have sm: "\<forall>q. Procesando q \<notin> set (step_messages c)"
    by (auto simp: step_messages_def import_step_def logger_step_def split: option.splits)
  from assms process_file_eq [OF Some, of d]
  consider "w' = prints [Procesando p, Omitiendo] w"
    | "w' = prints (Procesando p # step_messages c @ [SinCambios]) w"
    | "w' = prints (Procesando p # step_messages c @ [SeActualizaria]) w"
    | "w' = prints [Actualizado]
             (write_file p (transform c) (prints (Procesando p # step_messages c) w))"
    by (auto split: if_splits)
  then show ?thesis
  proof cases
    case 1
    then show ?thesis by (auto simp: prints_def)
  next
    case 2
    with sm show ?thesis by (auto simp: prints_def)
  next
    case 3
    with sm show ?thesis by (auto simp: prints_def)
  next
    case 4
    with sm show ?thesis by (auto simp: prints_def write_file_def)
  qed
qed

lemma process_all_frame:
  "process_all paths d n w = Inr (m, w') \<Longrightarrow>
     \<exists>ms. console w' = console w @ ms \<and> (\<forall>q. Procesando q \<in> set ms \<longrightarrow> q \<in> set paths)
       \<and> (\<forall>q. q \<notin> set paths \<longrightarrow> files w' q = files w q)"
proof (induction paths arbitrary: n w)
  case Nil
  then show ?case by simp
next
  case (Cons p paths)
  from Cons.prems obtain b w1 where
    pf: "process_file p d w = Inr (b, w1)"
    and rest: "process_all paths d (if b then n + 1 else n) (print Blank w1) = Inr (m, w')"
    by (auto split: sum.splits)
  from process_file_frame [OF pf] obtain ms1 where
    a: "console w1 = console w @ ms1" "\<forall>q. Procesando q \<in> set ms1 \<longrightarrow> q = p"
      "\<forall>q. q \<noteq> p \<longrightarrow> files w1 q = files w q" by blast
  from Cons.IH [OF rest] obtain ms2 where
    b: "console w' = console (print Blank w1) @ ms2"
      "\<forall>q. Procesando q \<in> set ms2 \<longrightarrow> q \<in> set paths"
      "\<forall>q. q \<notin> set paths \<longrightarrow> files w' q = files (print Blank w1) q" by blast
  have "console w' = console w @ (ms1 @ Blank # ms2)"
    using a(1) b(1) by (simp add: print_def)
  moreover have "\<forall>q. Procesando q \<in> set (ms1 @ Blank # ms2) \<longrightarrow> q \<in> set (p # paths)"
    using a(2) b(2) by auto
  moreover have "\<forall>q. q \<notin> set (p # paths) \<longrightarrow> files w' q = files w q"
    using a(3) b(3) by (simp add: print_def)
  ultimately show ?case by blast
qed

lemma process_all_readable:
  "set paths \<subseteq> dom (files w) \<Longrightarrow> \<exists>m w'. process_all paths d n w = Inr (m, w')"
proof (induction paths arbitrary: n w)
  case Nil
  then show ?case by simp
next
  case (Cons p paths)
  from Cons.prems obtain c where c: "files w p = Some c" by auto
  from process_file_eq [OF c, of d] obtain b w1 where
    pf: "process_file p d w = Inr (b, w1)" by (auto split: if_splits)
  from process_file_frame [OF pf] have "dom (files w) \<subseteq> dom (files w1)" by blast
  moreover from Cons.prems have "set paths \<subseteq> dom (files w)" by simp
  ultimately have "set paths \<subseteq> dom (files w1)" by (rule order_trans [rotated])
  then have "set paths \<subseteq> dom (files (print Blank w1))"
    by (simp add: print_def)
  from Cons.IH [OF this] pf show ?case by simp
qed

lemma main_frame:
  assumes "main argv tree w = Inr (n, w')"
  shows "\<exists>ms. console w' = console w @ ms
           \<and> (\<forall>q. Procesando q \<in> set ms \<longrightarrow> q \<in> set (java_files tree))
           \<and> (\<forall>q. q \<notin> set (java_files tree) \<longrightarrow> files w' q = files w q)"
proof -
  define d where "d = (''--dry-run'' \<in> set argv)"
  define w2 where
    "w2 = print (Encontrados (length (java_files tree))) (if d then print ModoDryRun w else w)"
  from assms obtain m w3 where
    pa: "process_all (java_files tree) d 0 w2 = Inr (m, w3)"
    and w': "w' = (let w4 = print (Resumen d m (length (java_files tree))) w3
                   in if d then print EjecutaSinDryRun w4 else w4)"
    by (auto simp: main_def Let_def d_def w2_def split: sum.splits)
  from process_all_frame [OF pa] obtain ms where
    a: "console w3 = console w2 @ ms"
      "\<forall>q. Procesando q \<in> set ms \<longrightarrow> q \<in> set (java_files tree)"
      "\<forall>q. q \<notin> set (java_files tree) \<longrightarrow> files w3 q = files w2 q" by blast
  obtain pre where pre: "console w2 = console w @ pre" "\<forall>q. Procesando q \<notin> set pre"
    "files w2 = files w"
    by (cases d) (auto simp: w2_def print_def)
  obtain post where post: "console w' = console w3 @ post" "\<forall>q. Procesando q \<notin> set post"
    "files w' = files w3"
    using w' by (cases d) (auto simp: Let_def print_def)
  have "console w' = console w @ (pre @ ms @ post)"
    using a(1) pre(1) post(1) by simp
  moreover have "\<forall>q. Procesando q \<in> set (pre @ ms @ post) \<longrightarrow> q \<in> set (java_files tree)"
    using a(2) pre(2) post(2) by auto
  moreover have "\<forall>q. q \<notin> set (java_files tree) \<longrightarrow> files w' q = files w q"
    using a(3) pre(3) post(3) by simp
  ultimately show ?thesis by blast
qed

lemma sample_tree_walk:
  "os_walk ''.'' sample_tree =
     [(''.'', [''src'', ''target'', ''.git''], [''A.java'', ''notes.txt'']),
      (''./src'', [], [''B.java'']),
      (''./target'', [''classes''], [''C.java'']),
      (''./target/classes'', [], [''D.java'']),
      (''./.git'', [], [''E.java''])]"
  by code_simp

lemma sample_tree_files: "java_files sample_tree = [''./A.java'', ''./src/B.java'']"
  by code_simp

text \<open>
  Claim C8, as the code has it. The walk is never pruned, so directories whose path holds
  \<open>target\<close> or \<open>.git\<close> are listed like all others; the loop skips them. Every path the
  discovery collects is a \<open>.java\<close> file of a listed directory whose path, and with it the
  path of each directory above it, holds neither marker. A run that returns prints its
  processing line only for collected paths and leaves every other file as it was.
\<close>

theorem marked_directories_never_processed:
  assumes "main argv tree w = Inr (n, w')"
  shows "(\<forall>p \<in> set (java_files tree). \<exists>root dirs fs name.
            (root, dirs, fs) \<in> set (os_walk ''.'' tree) \<and> name \<in> set fs
            \<and> suffix ''.java'' name \<and> p = path_join root name
            \<and> (\<forall>d. prefix d root \<longrightarrow> \<not> marked d))
       \<and> (\<exists>ms. console w' = console w @ ms
            \<and> (\<forall>q. Procesando q \<in> set ms \<longrightarrow> q \<in> set (java_files tree)))
       \<and> (\<forall>q. q \<notin> set (java_files tree) \<longrightarrow> files w' q = files w q)"
  using collected_paths_unmarked main_frame [OF assms] by blast

theorem marked_directories_never_processed_witness:
  "\<exists>n w'. main [] sample_tree tree_world = Inr (n, w')
     \<and> (\<forall>p \<in> set (java_files sample_tree). \<exists>root dirs fs name.
            (root, dirs, fs) \<in> set (os_walk ''.'' sample_tree) \<and> name \<in> set fs
            \<and> suffix ''.java'' name \<and> p = path_join root name
            \<and> (\<forall>d. prefix d root \<longrightarrow> \<not> marked d))
     \<and> (\<exists>ms. console w' = console tree_world @ ms
            \<and> (\<forall>q. Procesando q \<in> set ms \<longrightarrow> q \<in> set (java_files sample_tree)))
     \<and> (\<forall>q. q \<notin> set (java_files sample_tree) \<longrightarrow> files w' q = files tree_world q)"
proof -
  let ?w2 = "print (Encontrados (length (java_files sample_tree))) tree_world"
  have "set (java_files sample_tree) \<subseteq> dom (files ?w2)"
    by (simp add: sample_tree_files tree_world_def print_def)
  from process_all_readable [OF this, of False 0] obtain m w3 where
    "process_all (java_files sample_tree) False 0 ?w2 = Inr (m, w3)" by blast
  then have "\<exists>n w'. main [] sample_tree tree_world = Inr (n, w')"
    by (simp add: main_def Let_def)
  then obtain n w' where m: "main [] sample_tree tree_world = Inr (n, w')" by blast
  from marked_directories_never_processed [OF m] m show ?thesis by blast
qed

theorem marked_directories_walked_counterexample:
  "(''./target'', [''classes''], [''C.java'']) \<in> set (os_walk ''.'' sample_tree)
   \<and> (''./target/classes'', [], [''D.java'']) \<in> set (os_walk ''.'' sample_tree)
   \<and> (''./.git'', [], [''E.java'']) \<in> set (os_walk ''.'' sample_tree)
   \<and> marked ''./target'' \<and> marked ''./target/classes'' \<and> marked ''./.git''"
proof -
  have "marked ''./target''" "marked ''./target/classes''" "marked ''./.git''"
    by code_simp+
  then show ?thesis by (simp add: sample_tree_walk)
qed

section \<open>A text put into another\<close>





section \<open>The insertion steps applied to their own result\<close>

















lemma ex_class_capture_runs:
  "file_after ex_class_capture = ex_class_capture_once"
  "file_after ex_class_capture_once = ex_class_capture_twice"
  by code_simp+

lemma ex_class_capture_rewriter:
  "replace_system_err (replace_system_out ex_class_capture_once) = ex_class_capture_once"
  by code_simp

lemma ex_class_capture_differ: "ex_class_capture_twice \<noteq> ex_class_capture_once"
  by code_simp

text \<open>
  That the call rewriter finds nothing more to rewrite in the first run's output is not
  enough for the second run to change nothing: a rewritten call can change the class name
  the second run finds.
\<close>

lemma rewriter_fixed_point_not_enough:
  "replace_system_err (replace_system_out (file_after ex_class_capture))
     = file_after ex_class_capture
   \<and> file_after (file_after ex_class_capture) \<noteq> file_after ex_class_capture"
  using ex_class_capture_runs ex_class_capture_rewriter ex_class_capture_differ by simp






end
